theory Spec2Isabelle
  imports Main
begin

section \<open>The multi-level feedback scheduler of \<^verbatim>\<open>code/threads/scheduler.cc\<close>\<close>

text \<open>
  The scheduler keeps three ready queues \<^verbatim>\<open>L[1]\<close>, \<^verbatim>\<open>L[2]\<close>, \<^verbatim>\<open>L[3]\<close> of
  \<^verbatim>\<open>Thread*\<close>, a pending-destruction slot and a dirty flag, and works on the kernel's
  current-thread pointer and interrupt level. The model passes all of that as one explicit
  state. A \<^verbatim>\<open>Thread*\<close> is an address (\<open>tid\<close>), the thread objects live in a store
  from addresses to records, and \<^verbatim>\<open>NULL\<close> is \<open>None\<close> of \<open>tid option\<close>.
  \<^verbatim>\<open>L[0]\<close> is allocated by the constructor and never used again, so it has no field.
  The lines written to \<^verbatim>\<open>cout\<close> or the dump file only read thread fields and are
  left out.
\<close>

subsection \<open>Threads\<close>

type_synonym tid = nat

text \<open>
  Modelled from the spec: the class \<^verbatim>\<open>Thread\<close> is declared outside
  \<^verbatim>\<open>scheduler.cc\<close>. The record holds the fields the scheduler reads or writes through
  its getters and setters. The integer fields are \<^verbatim>\<open>int\<close> in the scheduler's locals
  (\<^verbatim>\<open>int min_burst\<close>, \<^verbatim>\<open>int max_priority\<close>); the scheduler only compares them, so
  they are modelled as \<open>int\<close>, and \<^verbatim>\<open>0x7fffffff\<close> is the largest value the machine
  type holds.
\<close>

datatype ThreadStatus = READY | RUNNING | BLOCKED | TERMINATED

record thread =
  status :: ThreadStatus
  priority :: int
  executionTime :: int
  tickWaited :: int
  timeUsed :: int
  space :: bool

text \<open>
  The bodies of these \<^verbatim>\<open>Thread\<close> methods are not part of the source at hand; the
  scheduler's functions take them as a parameter. \<open>CheckOverflow\<close> is true when the
  check passes (the method aborts the kernel otherwise). \<open>SaveUserState\<close> stands for the
  pair \<^verbatim>\<open>SaveUserState(); space->SaveState()\<close> and \<open>RestoreUserState\<close> for the pair
  \<^verbatim>\<open>RestoreUserState(); space->RestoreState()\<close>.
\<close>

record thread_ops =
  calNewExecuteTime :: "thread \<Rightarrow> thread"
  saveLastTick :: "thread \<Rightarrow> thread"
  SaveUserState :: "thread \<Rightarrow> thread"
  RestoreUserState :: "thread \<Rightarrow> thread"
  CheckOverflow :: "thread \<Rightarrow> bool"

definition setStatus :: "ThreadStatus \<Rightarrow> thread \<Rightarrow> thread" where
  "setStatus st th = th\<lparr>status := st\<rparr>"

definition setTimeUsed :: "int \<Rightarrow> thread \<Rightarrow> thread" where
  "setTimeUsed n th = th\<lparr>timeUsed := n\<rparr>"

text \<open>
  Modelled from the spec: \<^verbatim>\<open>Thread::incTickWaited(n)\<close> is the spec's
  \<^verbatim>\<open>incrementWaitTicks(n)\<close>, which adds \<open>n\<close> to the accumulated wait counter.
\<close>

definition incTickWaited :: "int \<Rightarrow> thread \<Rightarrow> thread" where
  "incTickWaited n th = th\<lparr>tickWaited := tickWaited th + n\<rparr>"

subsection \<open>The list class\<close>

text \<open>
  Modelled from the spec: the template \<^verbatim>\<open>List<T>\<close> is declared outside
  \<^verbatim>\<open>scheduler.cc\<close>. A queue is the sequence of its elements in insertion order,
  \<^verbatim>\<open>Append\<close> puts an element at the tail, \<^verbatim>\<open>Remove\<close> takes one given element
  out, and an iterator visits the elements from the front.
\<close>

definition Append :: "tid list \<Rightarrow> tid \<Rightarrow> tid list" where
  "Append q t = q @ [t]"

definition Remove :: "tid list \<Rightarrow> tid \<Rightarrow> tid list" where
  "Remove q t = remove1 t q"

definition IsEmpty :: "tid list \<Rightarrow> bool" where
  "IsEmpty q = (q = [])"

subsection \<open>Scheduler and kernel state\<close>

datatype IntStatus = IntOff | IntOn

datatype error = AssertionFailed | StackOverflow

record state =
  L1 :: "tid list"
  L2 :: "tid list"
  L3 :: "tid list"
  toBeDestroyed :: "tid option"
  dirty :: bool
  currentThread :: tid
  level :: IntStatus
  threads :: "tid \<Rightarrow> thread"
  deleted :: "tid list"

text \<open>
  \<open>deleted\<close> records every \<^verbatim>\<open>delete\<close> of a thread object, in order.
  \<open>call t f s\<close> is a method call \<^verbatim>\<open>t->f()\<close> that updates the object at \<open>t\<close>.
\<close>

definition call :: "tid \<Rightarrow> (thread \<Rightarrow> thread) \<Rightarrow> state \<Rightarrow> state" where
  "call t f s = s\<lparr>threads := (threads s)(t := f (threads s t))\<rparr>"

definition getPriority :: "state \<Rightarrow> tid \<Rightarrow> int" where
  "getPriority s t = priority (threads s t)"

definition getExecutionTime :: "state \<Rightarrow> tid \<Rightarrow> int" where
  "getExecutionTime s t = executionTime (threads s t)"

text \<open>The constructor, given the kernel's part of the state.\<close>

definition Scheduler :: "tid \<Rightarrow> IntStatus \<Rightarrow> (tid \<Rightarrow> thread) \<Rightarrow> state" where
  "Scheduler cur lvl h =
     \<lparr>L1 = [], L2 = [], L3 = [], toBeDestroyed = None, dirty = False,
      currentThread = cur, level = lvl, threads = h, deleted = []\<rparr>"

subsection \<open>Admission\<close>

definition ReadyToRun :: "tid \<Rightarrow> state \<Rightarrow> error + state" where
  "ReadyToRun t s =
     (if level s \<noteq> IntOff then Inl AssertionFailed
      else
        let s1 = call t (setStatus READY) s in
        if getPriority s1 t \<ge> 100 then Inr (s1\<lparr>L1 := Append (L1 s1) t\<rparr>)
        else if getPriority s1 t \<ge> 50 then Inr (s1\<lparr>L2 := Append (L2 s1) t\<rparr>)
        else Inr (s1\<lparr>L3 := Append (L3 s1) t\<rparr>))"

fun ReadyToRun_all :: "tid list \<Rightarrow> state \<Rightarrow> error + state" where
  "ReadyToRun_all [] s = Inr s"
| "ReadyToRun_all (t # ts) s =
     (case ReadyToRun t s of Inl e \<Rightarrow> Inl e | Inr s' \<Rightarrow> ReadyToRun_all ts s')"

subsection \<open>Selection\<close>

text \<open>The loop of \<^verbatim>\<open>findNextL1\<close>, with its two locals as arguments.\<close>

fun findNextL1_loop :: "state \<Rightarrow> tid list \<Rightarrow> int \<Rightarrow> tid option \<Rightarrow> tid option" where
  "findNextL1_loop s [] min_burst result = result"
| "findNextL1_loop s (t # ts) min_burst result =
     (if getExecutionTime s t < min_burst
      then findNextL1_loop s ts (getExecutionTime s t) (Some t)
      else findNextL1_loop s ts min_burst result)"

definition findNextL1 :: "state \<Rightarrow> tid option" where
  "findNextL1 s = findNextL1_loop s (L1 s) 0x7fffffff None"

fun findNextL2_loop :: "state \<Rightarrow> tid list \<Rightarrow> int \<Rightarrow> tid option \<Rightarrow> tid option" where
  "findNextL2_loop s [] max_priority result = result"
| "findNextL2_loop s (t # ts) max_priority result =
     (if getPriority s t > max_priority
      then findNextL2_loop s ts (getPriority s t) (Some t)
      else findNextL2_loop s ts max_priority result)"

definition findNextL2 :: "state \<Rightarrow> tid option" where
  "findNextL2 s = findNextL2_loop s (L2 s) (- 1) None"

definition findNextL3 :: "state \<Rightarrow> tid option" where
  "findNextL3 s = (case L3 s of [] \<Rightarrow> None | t # ts \<Rightarrow> Some t)"

definition preprocessThreads :: "thread_ops \<Rightarrow> state \<Rightarrow> state" where
  "preprocessThreads ops s =
     (let s1 = call (currentThread s) (calNewExecuteTime ops) s;
          s2 = call (currentThread s1) (saveLastTick ops) s1
      in call (currentThread s2) (setTimeUsed 0) s2)"

definition findNext :: "thread_ops \<Rightarrow> state \<Rightarrow> tid option \<times> state" where
  "findNext ops s =
     (if IsEmpty (L1 s) \<and> IsEmpty (L2 s) \<and> IsEmpty (L3 s) then (None, s)
      else
        let s1 = preprocessThreads ops s in
        case findNextL1 s1 of
          Some result \<Rightarrow> (Some result, s1\<lparr>L1 := Remove (L1 s1) result\<rparr>)
        | None \<Rightarrow>
           (case findNextL2 s1 of
              Some result \<Rightarrow> (Some result, s1\<lparr>L2 := Remove (L2 s1) result\<rparr>)
            | None \<Rightarrow>
               (case findNextL3 s1 of
                  Some result \<Rightarrow> (Some result, s1\<lparr>L3 := Remove (L3 s1) result\<rparr>)
                | None \<Rightarrow> (None, s1))))"

definition FindNextToRun :: "thread_ops \<Rightarrow> state \<Rightarrow> error + tid option \<times> state" where
  "FindNextToRun ops s =
     (if level s \<noteq> IntOff then Inl AssertionFailed else Inr (findNext ops s))"

subsection \<open>Dispatch and deferred destruction\<close>

definition CheckToBeDestroyed :: "state \<Rightarrow> state" where
  "CheckToBeDestroyed s =
     (case toBeDestroyed s of
        None \<Rightarrow> s
      | Some t \<Rightarrow> s\<lparr>deleted := deleted s @ [t], toBeDestroyed := None\<rparr>)"

text \<open>
  \<^verbatim>\<open>Run\<close> up to the call of \<^verbatim>\<open>SWITCH\<close>: the part the outgoing thread executes
  before it gives up the processor.
\<close>

definition Run_dispatch :: "thread_ops \<Rightarrow> tid \<Rightarrow> bool \<Rightarrow> state \<Rightarrow> error + state" where
  "Run_dispatch ops nextThread finishing s =
     (let oldThread = currentThread s in
      if level s \<noteq> IntOff then Inl AssertionFailed
      else if finishing \<and> toBeDestroyed s \<noteq> None then Inl AssertionFailed
      else
        let s1 = (if finishing then s\<lparr>toBeDestroyed := Some oldThread\<rparr> else s);
            s2 = (if space (threads s1 oldThread)
                  then call oldThread (SaveUserState ops) s1 else s1)
        in
        if \<not> CheckOverflow ops (threads s2 oldThread) then Inl StackOverflow
        else Inr (call nextThread (setStatus RUNNING) (s2\<lparr>currentThread := nextThread\<rparr>)))"

text \<open>
  \<^verbatim>\<open>Run\<close> from the return of \<^verbatim>\<open>SWITCH\<close>: the part a thread \<open>oldThread\<close> executes
  when a later dispatch has switched back to it.
\<close>

definition Run_resume :: "thread_ops \<Rightarrow> tid \<Rightarrow> state \<Rightarrow> error + state" where
  "Run_resume ops oldThread s =
     (if level s \<noteq> IntOff then Inl AssertionFailed
      else
        let s1 = CheckToBeDestroyed s in
        Inr (if space (threads s1 oldThread)
             then call oldThread (RestoreUserState ops) s1 else s1))"

text \<open>\<^verbatim>\<open>Print\<close> writes the three queues in order and changes nothing.\<close>

definition Print :: "state \<Rightarrow> tid list list" where
  "Print s = [L1 s, L2 s, L3 s]"

subsection \<open>Aging\<close>

text \<open>
  The two scanning loops of \<^verbatim>\<open>maintainQueues\<close> have one body: an element whose
  priority has reached the bound is appended to the destination queue and to the
  temporary list, and the flag is set. The bound is 50 with destination \<^verbatim>\<open>L[2]\<close> in the
  first loop and 100 with destination \<^verbatim>\<open>L[1]\<close> in the second.
\<close>

fun scan_loop ::
  "state \<Rightarrow> int \<Rightarrow> tid list \<Rightarrow> tid list \<times> tid list \<times> bool \<Rightarrow> tid list \<times> tid list \<times> bool" where
  "scan_loop s bound [] acc = acc"
| "scan_loop s bound (t # ts) (dst, temp, new) =
     (if getPriority s t \<ge> bound
      then scan_loop s bound ts (Append dst t, Append temp t, True)
      else scan_loop s bound ts (dst, temp, new))"

fun remove_loop :: "tid list \<Rightarrow> tid list \<Rightarrow> tid list" where
  "remove_loop [] q = q"
| "remove_loop (t # ts) q = remove_loop ts (Remove q t)"

definition maintainQueues :: "state \<Rightarrow> int \<times> state" where
  "maintainQueues s =
     (case scan_loop s 50 (L3 s) (L2 s, [], False) of (l2, temp1, L2_new) \<Rightarrow>
      let l3 = remove_loop temp1 (L3 s) in
      case scan_loop s 100 l2 (L1 s, [], False) of (l1, temp2, L1_new) \<Rightarrow>
      let l2' = remove_loop temp2 l2 in
      (if L1_new then 1 else if L2_new then 2 else 0,
       s\<lparr>L1 := l1, L2 := l2', L3 := l3\<rparr>))"

subsection \<open>Per-tick accounting\<close>

fun incTick_loop :: "tid list \<Rightarrow> state \<Rightarrow> state" where
  "incTick_loop [] s = s"
| "incTick_loop (t # ts) s =
     (if t \<noteq> currentThread s then incTick_loop ts (call t (incTickWaited 1) s)
      else incTick_loop ts s)"

definition incTickToThreads :: "int \<Rightarrow> state \<Rightarrow> state" where
  "incTickToThreads amount s =
     incTick_loop (L3 s) (incTick_loop (L2 s) (incTick_loop (L1 s) s))"

subsection \<open>The dirty flag\<close>

definition getDirty :: "state \<Rightarrow> bool" where
  "getDirty s = dirty s"

definition setDirty :: "bool \<Rightarrow> state \<Rightarrow> state" where
  "setDirty d s = s\<lparr>dirty := d\<rparr>"

subsection \<open>Sequences of scheduler calls\<close>

text \<open>
  One constructor per entry point of the class; \<open>perform_all\<close> runs a sequence of
  calls and stops at the first failed assertion, as the kernel would.
\<close>

datatype operation =
    OpReadyToRun tid
  | OpFindNextToRun
  | OpRunDispatch tid bool
  | OpRunResume tid
  | OpCheckToBeDestroyed
  | OpPrint
  | OpMaintainQueues
  | OpIncTickToThreads int
  | OpGetDirty
  | OpSetDirty bool

fun perform :: "thread_ops \<Rightarrow> operation \<Rightarrow> state \<Rightarrow> error + state" where
  "perform ops (OpReadyToRun t) s = ReadyToRun t s"
| "perform ops OpFindNextToRun s =
     (case FindNextToRun ops s of Inl e \<Rightarrow> Inl e | Inr (r, s') \<Rightarrow> Inr s')"
| "perform ops (OpRunDispatch t finishing) s = Run_dispatch ops t finishing s"
| "perform ops (OpRunResume t) s = Run_resume ops t s"
| "perform ops OpCheckToBeDestroyed s = Inr (CheckToBeDestroyed s)"
| "perform ops OpPrint s = Inr s"
| "perform ops OpMaintainQueues s = Inr (snd (maintainQueues s))"
| "perform ops (OpIncTickToThreads amount) s = Inr (incTickToThreads amount s)"
| "perform ops OpGetDirty s = Inr s"
| "perform ops (OpSetDirty d) s = Inr (setDirty d s)"

fun perform_all :: "thread_ops \<Rightarrow> operation list \<Rightarrow> state \<Rightarrow> error + state" where
  "perform_all ops [] s = Inr s"
| "perform_all ops (x # xs) s =
     (case perform ops x s of Inl e \<Rightarrow> Inl e | Inr s' \<Rightarrow> perform_all ops xs s')"

text \<open>
  The value most recently passed to \<^verbatim>\<open>setDirty\<close> in a sequence of calls, or \<open>d\<close>
  when the sequence has no such call.
\<close>

fun lastSetDirty :: "operation list \<Rightarrow> bool \<Rightarrow> bool" where
  "lastSetDirty [] d = d"
| "lastSetDirty (OpSetDirty b # xs) d = lastSetDirty xs b"
| "lastSetDirty (x # xs) d = lastSetDirty xs d"

subsection \<open>Example configurations\<close>

text \<open>
  A sample estimator (the mean of the old estimate and the time just used) and a table
  of threads: thread 0 is the one on the processor.
\<close>

definition ex_ops :: thread_ops where
  "ex_ops =
     \<lparr>calNewExecuteTime = (\<lambda>th. th\<lparr>executionTime := (executionTime th + timeUsed th) div 2\<rparr>),
      saveLastTick = (\<lambda>th. th),
      SaveUserState = (\<lambda>th. th),
      RestoreUserState = (\<lambda>th. th),
      CheckOverflow = (\<lambda>th. True)\<rparr>"

definition ex_thread :: "int \<Rightarrow> int \<Rightarrow> thread" where
  "ex_thread p e =
     \<lparr>status = BLOCKED, priority = p, executionTime = e, tickWaited = 0, timeUsed = 0,
      space = False\<rparr>"

definition ex_threads :: "tid \<Rightarrow> thread" where
  "ex_threads =
     (\<lambda>t. ex_thread 0 0)
       (0 := (ex_thread 0 8)\<lparr>timeUsed := 7\<rparr>,
        1 := ex_thread 120 5,
        2 := ex_thread 70 5,
        3 := ex_thread 70 3,
        4 := ex_thread 10 4,
        5 := ex_thread 120 0x7fffffff,
        6 := ex_thread 120 5,
        7 := ex_thread 60 2,
        8 := ex_thread 130 9)"

definition ex_idle :: state where
  "ex_idle = Scheduler 0 IntOff ex_threads"

definition ex_ready :: state where
  "ex_ready = ex_idle\<lparr>L1 := [1, 6], L2 := [2, 3], L3 := [4]\<rparr>"

definition ex_aging :: state where
  "ex_aging = ex_idle\<lparr>L1 := [1], L2 := [2, 6], L3 := [4, 7, 8]\<rparr>"

definition ex_sentinel :: state where
  "ex_sentinel = ex_idle\<lparr>L1 := [5]\<rparr>"

definition ex_sentinel2 :: state where
  "ex_sentinel2 = ex_idle\<lparr>L1 := [5], L2 := [2]\<rparr>"

definition ex_band2 :: state where
  "ex_band2 = ex_idle\<lparr>L2 := [2, 3], L3 := [4]\<rparr>"

definition ex_band3 :: state where
  "ex_band3 = ex_idle\<lparr>L3 := [4, 7]\<rparr>"


definition ex_sentinel3 :: state where
  "ex_sentinel3 = ex_idle\<lparr>L1 := [5], L3 := [4]\<rparr>"

definition ex_negative :: state where
  "ex_negative = ex_idle\<lparr>L2 := [9], L3 := [4], threads := ex_threads(9 := ex_thread (- 5) 3)\<rparr>"

section \<open>Properties of the loops\<close>

lemma call_simps:
  "L1 (call t f s) = L1 s" "L2 (call t f s) = L2 s" "L3 (call t f s) = L3 s"
  "toBeDestroyed (call t f s) = toBeDestroyed s" "dirty (call t f s) = dirty s"
  "currentThread (call t f s) = currentThread s" "level (call t f s) = level s"
  "deleted (call t f s) = deleted s"
  "threads (call t f s) = (threads s)(t := f (threads s t))"
  by (simp_all add: call_def)

lemma findNextL1_loop_keep:
  "\<forall>u\<in>set ts. mb \<le> getExecutionTime s u \<Longrightarrow> findNextL1_loop s ts mb r = r"
  by (induction ts arbitrary: mb r) auto

lemma findNextL1_loop_pick:
  "\<exists>u\<in>set ts. getExecutionTime s u < mb \<Longrightarrow>
   \<exists>pre t post. ts = pre @ t # post \<and> findNextL1_loop s ts mb r = Some t \<and>
     getExecutionTime s t < mb \<and>
     (\<forall>u\<in>set pre. getExecutionTime s t < getExecutionTime s u) \<and>
     (\<forall>u\<in>set post. getExecutionTime s t \<le> getExecutionTime s u)"
proof (induction ts arbitrary: mb r)
  case Nil
  then show ?case by simp
next
  case (Cons a ts)
  show ?case
  proof (cases "getExecutionTime s a < mb")
    case True
    show ?thesis
    proof (cases "\<exists>u\<in>set ts. getExecutionTime s u < getExecutionTime s a")
      case True
      from Cons.IH [OF True, of "Some a"] obtain pre t post where
        h: "ts = pre @ t # post" "findNextL1_loop s ts (getExecutionTime s a) (Some a) = Some t"
           "getExecutionTime s t < getExecutionTime s a"
           "\<forall>u\<in>set pre. getExecutionTime s t < getExecutionTime s u"
           "\<forall>u\<in>set post. getExecutionTime s t \<le> getExecutionTime s u"
        by blast
      have "a # ts = (a # pre) @ t # post" using h(1) by simp
      moreover have "findNextL1_loop s (a # ts) mb r = Some t"
        using \<open>getExecutionTime s a < mb\<close> h(2) by simp
      moreover have "getExecutionTime s t < mb"
        using \<open>getExecutionTime s a < mb\<close> h(3) by linarith
      moreover have "\<forall>u\<in>set (a # pre). getExecutionTime s t < getExecutionTime s u"
        using h(3) h(4) by simp
      ultimately show ?thesis using h(5) by blast
    next
      case False
      then have "\<forall>u\<in>set ts. getExecutionTime s a \<le> getExecutionTime s u" by auto
      then have "findNextL1_loop s ts (getExecutionTime s a) (Some a) = Some a"
        by (rule findNextL1_loop_keep)
      then have "findNextL1_loop s (a # ts) mb r = Some a"
        using \<open>getExecutionTime s a < mb\<close> by simp
      moreover have "a # ts = [] @ a # ts" by simp
      ultimately show ?thesis
        using \<open>getExecutionTime s a < mb\<close>
          \<open>\<forall>u\<in>set ts. getExecutionTime s a \<le> getExecutionTime s u\<close>
        by (metis empty_iff list.set(1))
    qed
  next
    case False
    with Cons.prems have "\<exists>u\<in>set ts. getExecutionTime s u < mb" by auto
    from Cons.IH [OF this, of r] obtain pre t post where
      h: "ts = pre @ t # post" "findNextL1_loop s ts mb r = Some t"
         "getExecutionTime s t < mb"
         "\<forall>u\<in>set pre. getExecutionTime s t < getExecutionTime s u"
         "\<forall>u\<in>set post. getExecutionTime s t \<le> getExecutionTime s u"
      by blast
    have "a # ts = (a # pre) @ t # post" using h(1) by simp
    moreover have "findNextL1_loop s (a # ts) mb r = Some t"
      using False h(2) by simp
    moreover have "\<forall>u\<in>set (a # pre). getExecutionTime s t < getExecutionTime s u"
      using False h(3) h(4) by auto
    ultimately show ?thesis using h(3) h(5) by blast
  qed
qed

lemma remove1_split:
  "t \<notin> set pre \<Longrightarrow> remove1 t (pre @ t # post) = pre @ post"
  by (simp add: remove1_append)

lemma scan_loop_eq:
  "scan_loop s b ts (dst, temp, new) =
     (dst @ filter (\<lambda>t. b \<le> getPriority s t) ts,
      temp @ filter (\<lambda>t. b \<le> getPriority s t) ts,
      new \<or> (\<exists>t\<in>set ts. b \<le> getPriority s t))"
  by (induction ts arbitrary: dst temp new) (auto simp: Append_def)

lemma remove_loop_filter_gen:
  "\<forall>x\<in>set pre. \<not> P x \<Longrightarrow>
   remove_loop (filter P xs) (pre @ xs) = pre @ filter (\<lambda>x. \<not> P x) xs"
proof (induction xs arbitrary: pre)
  case Nil
  then show ?case by simp
next
  case (Cons a xs)
  show ?case
  proof (cases "P a")
    case True
    then have "a \<notin> set pre" using Cons.prems by auto
    then show ?thesis using True Cons.IH [OF Cons.prems]
      by (simp add: Remove_def remove1_append)
  next
    case False
    then have "\<forall>x\<in>set (pre @ [a]). \<not> P x" using Cons.prems by auto
    from Cons.IH [OF this] show ?thesis using False by simp
  qed
qed

lemma remove_loop_filter:
  "remove_loop (filter P xs) xs = filter (\<lambda>x. \<not> P x) xs"
  using remove_loop_filter_gen [of "[]" P xs] by simp

lemma incTick_loop_frame:
  "L1 (incTick_loop ts s) = L1 s" "L2 (incTick_loop ts s) = L2 s" "L3 (incTick_loop ts s) = L3 s"
  "toBeDestroyed (incTick_loop ts s) = toBeDestroyed s" "dirty (incTick_loop ts s) = dirty s"
  "currentThread (incTick_loop ts s) = currentThread s" "level (incTick_loop ts s) = level s"
  "deleted (incTick_loop ts s) = deleted s"
  by (induction ts arbitrary: s; simp add: call_simps)+

lemma incTick_loop_threads:
  "threads (incTick_loop ts s) t =
     (if t = currentThread s then threads s t
      else (threads s t)\<lparr>tickWaited := tickWaited (threads s t) + int (count_list ts t)\<rparr>)"
  by (induction ts arbitrary: s) (auto simp: call_simps incTickWaited_def)

lemma findNextL2_loop_keep:
  "\<forall>u\<in>set ts. getPriority s u \<le> mp \<Longrightarrow> findNextL2_loop s ts mp r = r"
  by (induction ts arbitrary: mp r) auto

lemma findNextL2_loop_pick:
  "\<exists>u\<in>set ts. mp < getPriority s u \<Longrightarrow>
   \<exists>pre t post. ts = pre @ t # post \<and> findNextL2_loop s ts mp r = Some t \<and>
     mp < getPriority s t \<and>
     (\<forall>u\<in>set pre. getPriority s u < getPriority s t) \<and>
     (\<forall>u\<in>set post. getPriority s u \<le> getPriority s t)"
proof (induction ts arbitrary: mp r)
  case Nil
  then show ?case by simp
next
  case (Cons a ts)
  show ?case
  proof (cases "mp < getPriority s a")
    case above: True
    show ?thesis
    proof (cases "\<exists>u\<in>set ts. getPriority s a < getPriority s u")
      case True
      from Cons.IH [OF True, of "Some a"] obtain pre t post where
        h: "ts = pre @ t # post" "findNextL2_loop s ts (getPriority s a) (Some a) = Some t"
           "getPriority s a < getPriority s t"
           "\<forall>u\<in>set pre. getPriority s u < getPriority s t"
           "\<forall>u\<in>set post. getPriority s u \<le> getPriority s t"
        by blast
      have "a # ts = (a # pre) @ t # post" using h(1) by simp
      moreover have "findNextL2_loop s (a # ts) mp r = Some t"
        using above h(2) by simp
      moreover have "mp < getPriority s t"
        using above h(3) by linarith
      moreover have "\<forall>u\<in>set (a # pre). getPriority s u < getPriority s t"
        using h(3) h(4) by simp
      ultimately show ?thesis using h(5) by blast
    next
      case False
      then have le: "\<forall>u\<in>set ts. getPriority s u \<le> getPriority s a" by auto
      then have "findNextL2_loop s ts (getPriority s a) (Some a) = Some a"
        by (rule findNextL2_loop_keep)
      then have "findNextL2_loop s (a # ts) mp r = Some a"
        using above by simp
      moreover have "a # ts = [] @ a # ts" by simp
      ultimately show ?thesis
        using above le by (metis empty_iff list.set(1))
    qed
  next
    case False
    with Cons.prems have "\<exists>u\<in>set ts. mp < getPriority s u" by auto
    from Cons.IH [OF this, of r] obtain pre t post where
      h: "ts = pre @ t # post" "findNextL2_loop s ts mp r = Some t"
         "mp < getPriority s t"
         "\<forall>u\<in>set pre. getPriority s u < getPriority s t"
         "\<forall>u\<in>set post. getPriority s u \<le> getPriority s t"
      by blast
    have "a # ts = (a # pre) @ t # post" using h(1) by simp
    moreover have "findNextL2_loop s (a # ts) mp r = Some t"
      using False h(2) by simp
    moreover have "\<forall>u\<in>set (a # pre). getPriority s u < getPriority s t"
      using False h(3) h(4) by auto
    ultimately show ?thesis using h(3) h(5) by blast
  qed
qed

lemma findNextL1_None_iff:
  "findNextL1 s = None \<longleftrightarrow> (\<forall>u\<in>set (L1 s). 0x7fffffff \<le> getExecutionTime s u)"
proof
  assume n: "findNextL1 s = None"
  show "\<forall>u\<in>set (L1 s). 0x7fffffff \<le> getExecutionTime s u"
  proof (rule ccontr)
    assume "\<not> (\<forall>u\<in>set (L1 s). 0x7fffffff \<le> getExecutionTime s u)"
    then have "\<exists>u\<in>set (L1 s). getExecutionTime s u < 0x7fffffff"
      by (meson not_le_imp_less)
    from findNextL1_loop_pick [OF this, of None] n show False
      by (auto simp: findNextL1_def)
  qed
next
  assume "\<forall>u\<in>set (L1 s). 0x7fffffff \<le> getExecutionTime s u"
  then show "findNextL1 s = None"
    unfolding findNextL1_def by (rule findNextL1_loop_keep)
qed

lemma findNextL2_None_iff:
  "findNextL2 s = None \<longleftrightarrow> (\<forall>u\<in>set (L2 s). getPriority s u \<le> - 1)"
proof
  assume n: "findNextL2 s = None"
  show "\<forall>u\<in>set (L2 s). getPriority s u \<le> - 1"
  proof (rule ccontr)
    assume "\<not> (\<forall>u\<in>set (L2 s). getPriority s u \<le> - 1)"
    then have "\<exists>u\<in>set (L2 s). - 1 < getPriority s u"
      by (meson not_le_imp_less)
    from findNextL2_loop_pick [OF this, of None] n show False
      by (auto simp: findNextL2_def)
  qed
next
  assume "\<forall>u\<in>set (L2 s). getPriority s u \<le> - 1"
  then show "findNextL2 s = None"
    unfolding findNextL2_def by (rule findNextL2_loop_keep)
qed

lemma findNextL1_Some:
  assumes "findNextL1 s = Some t"
  shows "\<exists>pre post. L1 s = pre @ t # post \<and>
     (\<forall>u\<in>set pre. getExecutionTime s t < getExecutionTime s u) \<and>
     (\<forall>u\<in>set post. getExecutionTime s t \<le> getExecutionTime s u) \<and>
     Remove (L1 s) t = pre @ post"
proof -
  from assms have "\<not> (\<forall>u\<in>set (L1 s). 0x7fffffff \<le> getExecutionTime s u)"
    using findNextL1_None_iff [of s] by simp
  then have "\<exists>u\<in>set (L1 s). getExecutionTime s u < 0x7fffffff"
      by (meson not_le_imp_less)
  from findNextL1_loop_pick [OF this, of None] assms obtain pre post where
    h: "L1 s = pre @ t # post"
       "\<forall>u\<in>set pre. getExecutionTime s t < getExecutionTime s u"
       "\<forall>u\<in>set post. getExecutionTime s t \<le> getExecutionTime s u"
    by (auto simp: findNextL1_def)
  from h(2) have "t \<notin> set pre" by auto
  then have "Remove (L1 s) t = pre @ post"
    by (simp add: Remove_def h(1) remove1_split)
  with h show ?thesis by blast
qed

lemma findNextL2_Some:
  assumes "findNextL2 s = Some t"
  shows "\<exists>pre post. L2 s = pre @ t # post \<and>
     (\<forall>u\<in>set pre. getPriority s u < getPriority s t) \<and>
     (\<forall>u\<in>set post. getPriority s u \<le> getPriority s t) \<and>
     Remove (L2 s) t = pre @ post"
proof -
  from assms have "\<not> (\<forall>u\<in>set (L2 s). getPriority s u \<le> - 1)"
    using findNextL2_None_iff [of s] by simp
  then have "\<exists>u\<in>set (L2 s). - 1 < getPriority s u"
      by (meson not_le_imp_less)
  from findNextL2_loop_pick [OF this, of None] assms obtain pre post where
    h: "L2 s = pre @ t # post"
       "\<forall>u\<in>set pre. getPriority s u < getPriority s t"
       "\<forall>u\<in>set post. getPriority s u \<le> getPriority s t"
    by (auto simp: findNextL2_def)
  from h(2) have "t \<notin> set pre" by auto
  then have "Remove (L2 s) t = pre @ post"
    by (simp add: Remove_def h(1) remove1_split)
  with h show ?thesis by blast
qed

lemma preprocessThreads_frame:
  "L1 (preprocessThreads ops s) = L1 s" "L2 (preprocessThreads ops s) = L2 s"
  "L3 (preprocessThreads ops s) = L3 s"
  "toBeDestroyed (preprocessThreads ops s) = toBeDestroyed s"
  "dirty (preprocessThreads ops s) = dirty s"
  "currentThread (preprocessThreads ops s) = currentThread s"
  "level (preprocessThreads ops s) = level s"
  "deleted (preprocessThreads ops s) = deleted s"
  by (simp_all add: preprocessThreads_def Let_def call_simps)

lemma preprocessThreads_threads:
  "threads (preprocessThreads ops s) =
     (threads s)(currentThread s :=
        setTimeUsed 0 (saveLastTick ops (calNewExecuteTime ops (threads s (currentThread s)))))"
  by (simp add: preprocessThreads_def Let_def call_simps)

lemma findNext_empty:
  "L1 s = [] \<Longrightarrow> L2 s = [] \<Longrightarrow> L3 s = [] \<Longrightarrow> findNext ops s = (None, s)"
  by (simp add: findNext_def IsEmpty_def)

lemma findNext_nonempty:
  "\<not> (L1 s = [] \<and> L2 s = [] \<and> L3 s = []) \<Longrightarrow>
   findNext ops s =
     (let s1 = preprocessThreads ops s in
        case findNextL1 s1 of
          Some result \<Rightarrow> (Some result, s1\<lparr>L1 := Remove (L1 s1) result\<rparr>)
        | None \<Rightarrow>
           (case findNextL2 s1 of
              Some result \<Rightarrow> (Some result, s1\<lparr>L2 := Remove (L2 s1) result\<rparr>)
            | None \<Rightarrow>
               (case findNextL3 s1 of
                  Some result \<Rightarrow> (Some result, s1\<lparr>L3 := Remove (L3 s1) result\<rparr>)
                | None \<Rightarrow> (None, s1))))"
  by (auto simp add: findNext_def IsEmpty_def)

lemma findNextL1_Nil: "L1 s = [] \<Longrightarrow> findNextL1 s = None"
  by (simp add: findNextL1_def)

lemma findNextL2_Nil: "L2 s = [] \<Longrightarrow> findNextL2 s = None"
  by (simp add: findNextL2_def)

section \<open>Admission\<close>

lemma ReadyToRun_step:
  assumes "level s = IntOff"
  shows "\<exists>s'. ReadyToRun t s = Inr s' \<and>
     L1 s' = L1 s @ filter (\<lambda>t. 100 \<le> getPriority s t) [t] \<and>
     L2 s' = L2 s @ filter (\<lambda>t. 50 \<le> getPriority s t \<and> getPriority s t < 100) [t] \<and>
     L3 s' = L3 s @ filter (\<lambda>t. getPriority s t < 50) [t] \<and>
     threads s' = (threads s)(t := setStatus READY (threads s t)) \<and>
     level s' = IntOff \<and> toBeDestroyed s' = toBeDestroyed s \<and> dirty s' = dirty s \<and>
     currentThread s' = currentThread s \<and> deleted s' = deleted s"
  using assms
  by (simp add: ReadyToRun_def Let_def call_simps getPriority_def setStatus_def Append_def)

lemma ReadyToRun_keeps_priority:
  "ReadyToRun t s = Inr s' \<Longrightarrow> getPriority s' u = getPriority s u"
  by (auto simp: ReadyToRun_def Let_def call_simps getPriority_def setStatus_def
      split: if_splits)

text \<open>
  Claim C4. With interrupts off, every sequence of \<^verbatim>\<open>ReadyToRun\<close> calls succeeds,
  sets the status of each admitted thread to \<open>READY\<close> and appends it, in call order, to
  the tail of exactly the queue its priority selects: \<^verbatim>\<open>L[1]\<close> for a priority of at
  least 100, \<^verbatim>\<open>L[2]\<close> for a priority from 50 to 99, \<^verbatim>\<open>L[3]\<close> below 50. A single call
  is the sequence of length one. (With interrupts on, the call fails its first assertion.)
\<close>

theorem ReadyToRun_lands_in_band:
  assumes "level s = IntOff"
  shows "\<exists>s'. ReadyToRun_all ts s = Inr s' \<and>
     L1 s' = L1 s @ filter (\<lambda>t. 100 \<le> getPriority s t) ts \<and>
     L2 s' = L2 s @ filter (\<lambda>t. 50 \<le> getPriority s t \<and> getPriority s t < 100) ts \<and>
     L3 s' = L3 s @ filter (\<lambda>t. getPriority s t < 50) ts \<and>
     (\<forall>t. threads s' t =
        (if t \<in> set ts then setStatus READY (threads s t) else threads s t))"
  using assms
proof (induction ts arbitrary: s)
  case Nil
  then show ?case by simp
next
  case (Cons a ts)
  from ReadyToRun_step [OF Cons.prems, of a] obtain s1 where
    s1: "ReadyToRun a s = Inr s1"
        "L1 s1 = L1 s @ filter (\<lambda>t. 100 \<le> getPriority s t) [a]"
        "L2 s1 = L2 s @ filter (\<lambda>t. 50 \<le> getPriority s t \<and> getPriority s t < 100) [a]"
        "L3 s1 = L3 s @ filter (\<lambda>t. getPriority s t < 50) [a]"
        "threads s1 = (threads s)(a := setStatus READY (threads s a))"
        "level s1 = IntOff"
    by blast
  have p: "\<And>u. getPriority s1 u = getPriority s u"
    using ReadyToRun_keeps_priority [OF s1(1)] .
  from Cons.IH [OF s1(6)] obtain s' where
    s': "ReadyToRun_all ts s1 = Inr s'"
        "L1 s' = L1 s1 @ filter (\<lambda>t. 100 \<le> getPriority s1 t) ts"
        "L2 s' = L2 s1 @ filter (\<lambda>t. 50 \<le> getPriority s1 t \<and> getPriority s1 t < 100) ts"
        "L3 s' = L3 s1 @ filter (\<lambda>t. getPriority s1 t < 50) ts"
        "\<forall>t. threads s' t =
           (if t \<in> set ts then setStatus READY (threads s1 t) else threads s1 t)"
    by blast
  have "ReadyToRun_all (a # ts) s = Inr s'" using s1(1) s'(1) by simp
  moreover have "L1 s' = L1 s @ filter (\<lambda>t. 100 \<le> getPriority s t) (a # ts)"
    using s1(2) s'(2) by (simp add: p)
  moreover have
    "L2 s' = L2 s @ filter (\<lambda>t. 50 \<le> getPriority s t \<and> getPriority s t < 100) (a # ts)"
    using s1(3) s'(3) by (simp add: p)
  moreover have "L3 s' = L3 s @ filter (\<lambda>t. getPriority s t < 50) (a # ts)"
    using s1(4) s'(4) by (simp add: p)
  moreover have "\<forall>t. threads s' t =
      (if t \<in> set (a # ts) then setStatus READY (threads s t) else threads s t)"
    using s1(5) s'(5) by (simp add: setStatus_def)
  ultimately show ?case by blast
qed

theorem ReadyToRun_lands_in_band_witness:
  "level ex_idle = IntOff \<and>
   (\<exists>s'. ReadyToRun_all [1, 2, 4, 3] ex_idle = Inr s' \<and>
      L1 s' = [1] \<and> L2 s' = [2, 3] \<and> L3 s' = [4] \<and>
      status (threads s' 1) = READY \<and> status (threads s' 4) = READY \<and>
      status (threads s' 5) = BLOCKED)"
proof -
  note ex = ex_idle_def Scheduler_def ex_threads_def ex_thread_def getPriority_def
    setStatus_def
  have h: "level ex_idle = IntOff" by (simp add: ex)
  from ReadyToRun_lands_in_band [OF h, of "[1, 2, 4, 3]"] obtain s' where
    r: "ReadyToRun_all [1, 2, 4, 3] ex_idle = Inr s'" and
    q1: "L1 s' = L1 ex_idle @ filter (\<lambda>t. 100 \<le> getPriority ex_idle t) [1, 2, 4, 3]" and
    q2: "L2 s' = L2 ex_idle @
          filter (\<lambda>t. 50 \<le> getPriority ex_idle t \<and> getPriority ex_idle t < 100) [1, 2, 4, 3]" and
    q3: "L3 s' = L3 ex_idle @ filter (\<lambda>t. getPriority ex_idle t < 50) [1, 2, 4, 3]" and
    th: "\<forall>t. threads s' t =
          (if t \<in> set [1, 2, 4, 3] then setStatus READY (threads ex_idle t)
           else threads ex_idle t)"
    by blast
  have "L1 s' = [1]" using q1 by (simp add: ex)
  moreover have "L2 s' = [2, 3]" using q2 by (simp add: ex)
  moreover have "L3 s' = [4]" using q3 by (simp add: ex)
  moreover have "status (threads s' 1) = READY" using th by (simp add: ex)
  moreover have "status (threads s' 4) = READY" using th by (simp add: ex)
  moreover have "status (threads s' 5) = BLOCKED" using th by (simp add: ex)
  ultimately show ?thesis using h r by blast
qed

section \<open>Aging\<close>

lemma maintainQueues_eq:
  "maintainQueues s =
     (let l2 = L2 s @ filter (\<lambda>t. 50 \<le> getPriority s t) (L3 s) in
      (if \<exists>t\<in>set l2. 100 \<le> getPriority s t then 1
       else if \<exists>t\<in>set (L3 s). 50 \<le> getPriority s t then 2 else 0,
       s\<lparr>L1 := L1 s @ filter (\<lambda>t. 100 \<le> getPriority s t) l2,
         L2 := filter (\<lambda>t. \<not> 100 \<le> getPriority s t) l2,
         L3 := filter (\<lambda>t. \<not> 50 \<le> getPriority s t) (L3 s)\<rparr>))"
  by (simp add: maintainQueues_def scan_loop_eq remove_loop_filter Let_def)

text \<open>
  Claim C3. \<^verbatim>\<open>maintainQueues\<close> takes out of \<^verbatim>\<open>L[3]\<close> exactly the threads whose
  priority is at least 50 and appends them to \<^verbatim>\<open>L[2]\<close>; it then scans \<^verbatim>\<open>L[2]\<close>
  with those arrivals and moves exactly the threads whose priority is at least 100 to
  \<^verbatim>\<open>L[1]\<close>, so that a thread of \<^verbatim>\<open>L[3]\<close> with priority at least 100 ends in
  \<^verbatim>\<open>L[1]\<close>. A thread below its boundary stays in its queue, the threads of
  \<^verbatim>\<open>L[1]\<close> stay, and no thread object is changed. The result is 1 when some thread
  entered \<^verbatim>\<open>L[1]\<close>, else 2 when some thread entered \<^verbatim>\<open>L[2]\<close>, else 0.
\<close>

theorem maintainQueues_promotes:
  "L3 (snd (maintainQueues s)) = filter (\<lambda>t. getPriority s t < 50) (L3 s) \<and>
   L2 (snd (maintainQueues s)) =
     filter (\<lambda>t. getPriority s t < 100)
       (L2 s @ filter (\<lambda>t. 50 \<le> getPriority s t) (L3 s)) \<and>
   L1 (snd (maintainQueues s)) =
     L1 s @ filter (\<lambda>t. 100 \<le> getPriority s t)
       (L2 s @ filter (\<lambda>t. 50 \<le> getPriority s t) (L3 s)) \<and>
   fst (maintainQueues s) =
     (if \<exists>t\<in>set (L2 s @ filter (\<lambda>t. 50 \<le> getPriority s t) (L3 s)).
           100 \<le> getPriority s t then 1
      else if \<exists>t\<in>set (L3 s). 50 \<le> getPriority s t then 2 else 0) \<and>
   threads (snd (maintainQueues s)) = threads s \<and>
   currentThread (snd (maintainQueues s)) = currentThread s \<and>
   toBeDestroyed (snd (maintainQueues s)) = toBeDestroyed s \<and>
   deleted (snd (maintainQueues s)) = deleted s"
  by (simp add: maintainQueues_eq Let_def not_le)

theorem maintainQueues_promotes_witness:
  "L3 (snd (maintainQueues ex_aging)) = [4] \<and>
   L2 (snd (maintainQueues ex_aging)) = [2, 7] \<and>
   L1 (snd (maintainQueues ex_aging)) = [1, 6, 8] \<and>
   fst (maintainQueues ex_aging) = 1"
  using maintainQueues_promotes [of ex_aging]
  by (simp add: ex_aging_def ex_idle_def Scheduler_def ex_threads_def ex_thread_def
      getPriority_def)

text \<open>
  Claim C9. \<^verbatim>\<open>maintainQueues\<close> keeps insertion order. The threads that stay in a
  queue keep their relative order; the threads promoted into a queue stand after the
  entries the queue already had, in the order they had in the queue they came from
  (in \<^verbatim>\<open>L[1]\<close>: first those that came from \<^verbatim>\<open>L[2]\<close>, then those that came from
  \<^verbatim>\<open>L[3]\<close> through \<^verbatim>\<open>L[2]\<close>).
\<close>

theorem maintainQueues_keeps_order:
  "L1 (snd (maintainQueues s)) =
     L1 s @ filter (\<lambda>t. 100 \<le> getPriority s t) (L2 s)
          @ filter (\<lambda>t. 100 \<le> getPriority s t) (L3 s) \<and>
   L2 (snd (maintainQueues s)) =
     filter (\<lambda>t. getPriority s t < 100) (L2 s)
       @ filter (\<lambda>t. 50 \<le> getPriority s t \<and> getPriority s t < 100) (L3 s) \<and>
   L3 (snd (maintainQueues s)) = filter (\<lambda>t. getPriority s t < 50) (L3 s)"
proof -
  have a: "(\<lambda>t. 50 \<le> getPriority s t \<and> 100 \<le> getPriority s t) =
           (\<lambda>t. 100 \<le> getPriority s t)"
    by auto
  have b: "(\<lambda>t. 50 \<le> getPriority s t \<and> getPriority s t < 100) =
           (\<lambda>t. 50 \<le> getPriority s t \<and> \<not> 100 \<le> getPriority s t)"
    by auto
  show ?thesis
    by (simp add: maintainQueues_eq Let_def a b not_le [symmetric] conj_commute)
qed

theorem maintainQueues_keeps_order_witness:
  "L1 (snd (maintainQueues ex_aging)) = [1] @ [6] @ [8] \<and>
   L2 (snd (maintainQueues ex_aging)) = [2] @ [7] \<and>
   L3 (snd (maintainQueues ex_aging)) = [4]"
  using maintainQueues_keeps_order [of ex_aging]
  by (simp add: ex_aging_def ex_idle_def Scheduler_def ex_threads_def ex_thread_def
      getPriority_def)

section \<open>Per-tick accounting\<close>

lemma incTickToThreads_frame:
  "L1 (incTickToThreads amount s) = L1 s" "L2 (incTickToThreads amount s) = L2 s"
  "L3 (incTickToThreads amount s) = L3 s"
  "toBeDestroyed (incTickToThreads amount s) = toBeDestroyed s"
  "dirty (incTickToThreads amount s) = dirty s"
  "currentThread (incTickToThreads amount s) = currentThread s"
  "level (incTickToThreads amount s) = level s"
  "deleted (incTickToThreads amount s) = deleted s"
  by (simp_all add: incTickToThreads_def incTick_loop_frame)

lemma incTickToThreads_count:
  "threads (incTickToThreads amount s) t =
     (if t = currentThread s then threads s t
      else (threads s t)\<lparr>tickWaited :=
             tickWaited (threads s t) + int (count_list (L1 s @ L2 s @ L3 s) t)\<rparr>)"
  by (simp add: incTickToThreads_def incTick_loop_threads incTick_loop_frame)

lemma count_list_distinct:
  "distinct xs \<Longrightarrow> count_list xs x = (if x \<in> set xs then 1 else 0)"
  by (induction xs) auto

text \<open>
  In a state where no thread stands twice in the queues, \<^verbatim>\<open>incTickToThreads\<close> adds
  exactly one to the wait counter of every thread of the three queues other than the
  current thread.
\<close>

lemma incTickToThreads_once:
  assumes "distinct (L1 s @ L2 s @ L3 s)"
  shows "threads (incTickToThreads amount s) t =
           (if t \<in> set (L1 s @ L2 s @ L3 s) \<and> t \<noteq> currentThread s
            then (threads s t)\<lparr>tickWaited := tickWaited (threads s t) + 1\<rparr>
            else threads s t) \<and>
         L1 (incTickToThreads amount s) = L1 s \<and>
         L2 (incTickToThreads amount s) = L2 s \<and>
         L3 (incTickToThreads amount s) = L3 s"
proof -
  have "count_list (L1 s @ L2 s @ L3 s) t =
          (if t \<in> set (L1 s @ L2 s @ L3 s) then 1 else 0)"
    using assms by (rule count_list_distinct)
  then show ?thesis
    by (simp only: incTickToThreads_count incTickToThreads_frame) simp
qed




section \<open>Dispatch and deferred destruction\<close>

lemma CheckToBeDestroyed_frame:
  "L1 (CheckToBeDestroyed s) = L1 s" "L2 (CheckToBeDestroyed s) = L2 s"
  "L3 (CheckToBeDestroyed s) = L3 s" "dirty (CheckToBeDestroyed s) = dirty s"
  "currentThread (CheckToBeDestroyed s) = currentThread s"
  "level (CheckToBeDestroyed s) = level s" "threads (CheckToBeDestroyed s) = threads s"
  by (simp_all add: CheckToBeDestroyed_def split: option.splits)

lemma CheckToBeDestroyed_slot: "toBeDestroyed (CheckToBeDestroyed s) = None"
  by (simp add: CheckToBeDestroyed_def split: option.splits)

lemma CheckToBeDestroyed_deleted:
  "deleted (CheckToBeDestroyed s) =
     deleted s @ (case toBeDestroyed s of None \<Rightarrow> [] | Some t \<Rightarrow> [t])"
  by (simp add: CheckToBeDestroyed_def split: option.splits)

lemma CheckToBeDestroyed_idem:
  "CheckToBeDestroyed (CheckToBeDestroyed s) = CheckToBeDestroyed s"
  by (simp add: CheckToBeDestroyed_def split: option.splits)

text \<open>
  Claim C8. With interrupts off, \<^verbatim>\<open>Run(nextThread, TRUE)\<close> fails an assertion when
  the pending-destruction slot is occupied. When the slot is empty and the outgoing
  thread passes its stack check, the part of \<^verbatim>\<open>Run\<close> before \<^verbatim>\<open>SWITCH\<close> stores the
  outgoing thread (the current thread at the call, whatever \<open>nextThread\<close> is) in the
  slot and deletes nothing. \<^verbatim>\<open>CheckToBeDestroyed\<close> in the state so reached, called
  directly or by the part of \<^verbatim>\<open>Run\<close> after \<^verbatim>\<open>SWITCH\<close>, deletes that thread and
  nothing else and empties the slot, and a second \<^verbatim>\<open>CheckToBeDestroyed\<close> changes
  nothing.
\<close>

theorem Run_finishing_destroys_outgoing:
  assumes "level s = IntOff"
  shows "(toBeDestroyed s \<noteq> None \<longrightarrow>
            Run_dispatch ops nextThread True s = Inl AssertionFailed) \<and>
         (toBeDestroyed s = None \<and>
          CheckOverflow ops
            (if space (threads s (currentThread s))
             then SaveUserState ops (threads s (currentThread s))
             else threads s (currentThread s)) \<longrightarrow>
          (\<exists>s'. Run_dispatch ops nextThread True s = Inr s' \<and>
             toBeDestroyed s' = Some (currentThread s) \<and>
             currentThread s' = nextThread \<and>
             deleted s' = deleted s \<and>
             deleted (CheckToBeDestroyed s') = deleted s @ [currentThread s] \<and>
             toBeDestroyed (CheckToBeDestroyed s') = None \<and>
             CheckToBeDestroyed (CheckToBeDestroyed s') = CheckToBeDestroyed s' \<and>
             (\<forall>t. \<exists>s''. Run_resume ops t s' = Inr s'' \<and>
                deleted s'' = deleted s @ [currentThread s] \<and>
                toBeDestroyed s'' = None)))"
proof (intro conjI impI)
  assume "toBeDestroyed s \<noteq> None"
  then show "Run_dispatch ops nextThread True s = Inl AssertionFailed"
    using assms by (simp add: Run_dispatch_def)
next
  let ?old = "currentThread s"
  assume h: "toBeDestroyed s = None \<and>
          CheckOverflow ops
            (if space (threads s ?old) then SaveUserState ops (threads s ?old)
             else threads s ?old)"
  define s2 where "s2 =
    (if space (threads s ?old)
     then call ?old (SaveUserState ops) (s\<lparr>toBeDestroyed := Some ?old\<rparr>)
     else s\<lparr>toBeDestroyed := Some ?old\<rparr>)"
  define s' where "s' = call nextThread (setStatus RUNNING) (s2\<lparr>currentThread := nextThread\<rparr>)"
  have r: "Run_dispatch ops nextThread True s = Inr s'"
    using assms h
    by (auto simp add: Run_dispatch_def Let_def call_simps s'_def s2_def split: if_splits)
  have slot: "toBeDestroyed s' = Some ?old" by (simp add: call_simps s'_def s2_def)
  have cur: "currentThread s' = nextThread" by (simp add: call_simps s'_def)
  have del: "deleted s' = deleted s" by (simp add: call_simps s'_def s2_def)
  have lvl: "level s' = IntOff" using assms by (simp add: call_simps s'_def s2_def)
  have d1: "deleted (CheckToBeDestroyed s') = deleted s @ [?old]"
    by (simp only: CheckToBeDestroyed_deleted slot del) simp
  have res: "\<exists>s''. Run_resume ops t s' = Inr s'' \<and>
                deleted s'' = deleted s @ [?old] \<and> toBeDestroyed s'' = None" for t
    by (simp add: Run_resume_def Let_def lvl call_simps d1 CheckToBeDestroyed_slot)
  show "\<exists>s'. Run_dispatch ops nextThread True s = Inr s' \<and>
             toBeDestroyed s' = Some (currentThread s) \<and>
             currentThread s' = nextThread \<and>
             deleted s' = deleted s \<and>
             deleted (CheckToBeDestroyed s') = deleted s @ [currentThread s] \<and>
             toBeDestroyed (CheckToBeDestroyed s') = None \<and>
             CheckToBeDestroyed (CheckToBeDestroyed s') = CheckToBeDestroyed s' \<and>
             (\<forall>t. \<exists>s''. Run_resume ops t s' = Inr s'' \<and>
                deleted s'' = deleted s @ [currentThread s] \<and>
                toBeDestroyed s'' = None)"
    using r slot cur del d1 res CheckToBeDestroyed_slot [of s'] CheckToBeDestroyed_idem [of s']
    by blast
qed

theorem Run_finishing_destroys_outgoing_witness:
  "level ex_ready = IntOff \<and> toBeDestroyed ex_ready = None \<and>
   CheckOverflow ex_ops
     (if space (threads ex_ready (currentThread ex_ready))
      then SaveUserState ex_ops (threads ex_ready (currentThread ex_ready))
      else threads ex_ready (currentThread ex_ready)) \<and>
   (\<exists>s'. Run_dispatch ex_ops 1 True ex_ready = Inr s' \<and>
      toBeDestroyed s' = Some 0 \<and> currentThread s' = 1 \<and>
      deleted (CheckToBeDestroyed s') = [0] \<and>
      toBeDestroyed (CheckToBeDestroyed s') = None) \<and>
   level (ex_ready\<lparr>toBeDestroyed := Some 3\<rparr>) = IntOff \<and>
   toBeDestroyed (ex_ready\<lparr>toBeDestroyed := Some 3\<rparr>) \<noteq> None \<and>
   Run_dispatch ex_ops 1 True (ex_ready\<lparr>toBeDestroyed := Some 3\<rparr>) = Inl AssertionFailed"
proof -
  note ex = ex_ready_def ex_idle_def Scheduler_def ex_threads_def ex_thread_def ex_ops_def
  have h1: "level ex_ready = IntOff" by (simp add: ex)
  have h2: "toBeDestroyed ex_ready = None" by (simp add: ex)
  have h3: "CheckOverflow ex_ops
     (if space (threads ex_ready (currentThread ex_ready))
      then SaveUserState ex_ops (threads ex_ready (currentThread ex_ready))
      else threads ex_ready (currentThread ex_ready))" by (simp add: ex)
  have c: "currentThread ex_ready = 0" "deleted ex_ready = []" by (simp_all add: ex)
  have k1: "level (ex_ready\<lparr>toBeDestroyed := Some 3\<rparr>) = IntOff" by (simp add: ex)
  have k2: "toBeDestroyed (ex_ready\<lparr>toBeDestroyed := Some 3\<rparr>) \<noteq> None" by simp
  from Run_finishing_destroys_outgoing [OF h1, of ex_ops 1] h2 h3 obtain s' where
    "Run_dispatch ex_ops 1 True ex_ready = Inr s'"
    "toBeDestroyed s' = Some (currentThread ex_ready)" "currentThread s' = 1"
    "deleted (CheckToBeDestroyed s') = deleted ex_ready @ [currentThread ex_ready]"
    "toBeDestroyed (CheckToBeDestroyed s') = None"
    by blast
  then have "\<exists>s'. Run_dispatch ex_ops 1 True ex_ready = Inr s' \<and>
      toBeDestroyed s' = Some 0 \<and> currentThread s' = 1 \<and>
      deleted (CheckToBeDestroyed s') = [0] \<and>
      toBeDestroyed (CheckToBeDestroyed s') = None"
    by (simp add: c)
  moreover have
    "Run_dispatch ex_ops 1 True (ex_ready\<lparr>toBeDestroyed := Some 3\<rparr>) = Inl AssertionFailed"
    using Run_finishing_destroys_outgoing [OF k1, of ex_ops 1] k2 by blast
  ultimately show ?thesis using h1 h2 h3 k1 k2 by blast
qed

section \<open>The dirty flag\<close>

lemma ReadyToRun_dirty: "ReadyToRun t s = Inr s' \<Longrightarrow> dirty s' = dirty s"
  by (auto simp: ReadyToRun_def Let_def call_simps split: if_splits)

lemma findNext_dirty: "dirty (snd (findNext ops s)) = dirty s"
  by (simp add: findNext_def Let_def preprocessThreads_frame split: option.splits)

lemma FindNextToRun_dirty: "FindNextToRun ops s = Inr (r, s') \<Longrightarrow> dirty s' = dirty s"
  using findNext_dirty [of ops s] by (auto simp: FindNextToRun_def split: if_splits)

lemma Run_dispatch_dirty: "Run_dispatch ops t f s = Inr s' \<Longrightarrow> dirty s' = dirty s"
  by (auto simp: Run_dispatch_def Let_def call_simps split: if_splits)

lemma Run_resume_dirty: "Run_resume ops t s = Inr s' \<Longrightarrow> dirty s' = dirty s"
  by (auto simp: Run_resume_def Let_def call_simps CheckToBeDestroyed_frame split: if_splits)

lemma maintainQueues_dirty: "dirty (snd (maintainQueues s)) = dirty s"
  by (simp add: maintainQueues_eq Let_def)

lemma perform_dirty:
  "perform ops x s = Inr s' \<Longrightarrow>
   dirty s' = (case x of OpSetDirty b \<Rightarrow> b | _ \<Rightarrow> dirty s)"
  by (cases x)
    (auto simp: ReadyToRun_dirty FindNextToRun_dirty Run_dispatch_dirty Run_resume_dirty
      maintainQueues_dirty incTickToThreads_frame CheckToBeDestroyed_frame setDirty_def
      split: sum.splits)

lemma perform_all_dirty:
  "perform_all ops xs s = Inr s' \<Longrightarrow> dirty s' = lastSetDirty xs (dirty s)"
proof (induction xs arbitrary: s)
  case Nil
  then show ?case by simp
next
  case (Cons x xs)
  from Cons.prems obtain s1 where
    s1: "perform ops x s = Inr s1" "perform_all ops xs s1 = Inr s'"
    by (auto split: sum.splits)
  from perform_dirty [OF s1(1)] Cons.IH [OF s1(2)] show ?case
    by (cases x) simp_all
qed

text \<open>
  Claim C10. The constructor leaves the dirty flag false; \<^verbatim>\<open>getDirty\<close> after
  \<^verbatim>\<open>setDirty(b)\<close> is \<open>b\<close>; every other entry point of the scheduler that returns
  leaves the flag as it was; and after any sequence of calls on a new scheduler,
  \<^verbatim>\<open>getDirty\<close> is the value most recently passed to \<^verbatim>\<open>setDirty\<close>, or false when
  \<^verbatim>\<open>setDirty\<close> was not called.
\<close>

theorem dirty_changed_only_by_setDirty:
  "getDirty (Scheduler cur lvl h) = False \<and>
   getDirty (setDirty b s) = b \<and>
   (perform ops x s = Inr s' \<and> (\<forall>d. x \<noteq> OpSetDirty d) \<longrightarrow> getDirty s' = getDirty s) \<and>
   (perform_all ops xs (Scheduler cur lvl h) = Inr s'' \<longrightarrow>
      getDirty s'' = lastSetDirty xs False)"
proof (intro conjI impI)
  show "getDirty (Scheduler cur lvl h) = False" by (simp add: getDirty_def Scheduler_def)
  show "getDirty (setDirty b s) = b" by (simp add: getDirty_def setDirty_def)
next
  assume a: "perform ops x s = Inr s' \<and> (\<forall>d. x \<noteq> OpSetDirty d)"
  then show "getDirty s' = getDirty s"
    using perform_dirty [of ops x s s'] by (cases x) (auto simp add: getDirty_def)
next
  assume "perform_all ops xs (Scheduler cur lvl h) = Inr s''"
  from perform_all_dirty [OF this] show "getDirty s'' = lastSetDirty xs False"
    by (simp add: getDirty_def Scheduler_def)
qed

theorem dirty_changed_only_by_setDirty_witness:
  "perform ex_ops OpMaintainQueues ex_aging = Inr (snd (maintainQueues ex_aging)) \<and>
   (\<forall>d. OpMaintainQueues \<noteq> OpSetDirty d) \<and>
   getDirty (snd (maintainQueues ex_aging)) = False \<and>
   (\<exists>s''. perform_all ex_ops
            [OpSetDirty False, OpSetDirty True, OpReadyToRun 1, OpFindNextToRun,
             OpMaintainQueues, OpIncTickToThreads 3, OpPrint]
            (Scheduler 0 IntOff ex_threads) = Inr s'' \<and>
          getDirty s'' = True)"
proof -
  let ?xs = "[OpSetDirty False, OpSetDirty True, OpReadyToRun 1, OpFindNextToRun,
             OpMaintainQueues, OpIncTickToThreads 3, OpPrint]"
  have p: "perform ex_ops OpMaintainQueues ex_aging = Inr (snd (maintainQueues ex_aging))"
    by simp
  have n: "\<forall>d. OpMaintainQueues \<noteq> OpSetDirty d" by simp
  have d0: "getDirty ex_aging = False"
    by (simp add: getDirty_def ex_aging_def ex_idle_def Scheduler_def)
  have "\<exists>s''. perform_all ex_ops ?xs (Scheduler 0 IntOff ex_threads) = Inr s''"
    by (simp add: setDirty_def ReadyToRun_def FindNextToRun_def Let_def call_simps
        Scheduler_def split: prod.splits)
  then obtain s'' where
    r: "perform_all ex_ops ?xs (Scheduler 0 IntOff ex_threads) = Inr s''" by blast
  from dirty_changed_only_by_setDirty
         [where cur = 0 and lvl = IntOff and h = ex_threads and ops = ex_ops
            and x = OpMaintainQueues and s = ex_aging
            and s' = "snd (maintainQueues ex_aging)" and xs = ?xs and s'' = s'']
  have "getDirty (snd (maintainQueues ex_aging)) = getDirty ex_aging"
    and "getDirty s'' = lastSetDirty ?xs False"
    using p n r by blast+
  then show ?thesis using p n r d0 by auto
qed

section \<open>Selection\<close>

lemma FindNextToRun_IntOff:
  "level s = IntOff \<Longrightarrow> FindNextToRun ops s = Inr (findNext ops s)"
  by (simp add: FindNextToRun_def)

lemma findNextL3_eq: "findNextL3 s = (case L3 s of [] \<Rightarrow> None | t # ts \<Rightarrow> Some t)"
  by (simp add: findNextL3_def)

lemma findNext_from_L1:
  assumes "findNextL1 (preprocessThreads ops s) = Some t"
  shows "findNext ops s =
           (Some t, (preprocessThreads ops s)\<lparr>L1 := Remove (L1 s) t\<rparr>)"
proof -
  from assms have "L1 s \<noteq> []"
    using findNextL1_Nil [of "preprocessThreads ops s"]
    by (auto simp: preprocessThreads_frame)
  then show ?thesis
    using assms by (simp add: findNext_nonempty Let_def preprocessThreads_frame)
qed

lemma findNext_from_L2:
  assumes "findNextL1 (preprocessThreads ops s) = None"
    and "findNextL2 (preprocessThreads ops s) = Some t"
  shows "findNext ops s =
           (Some t, (preprocessThreads ops s)\<lparr>L2 := Remove (L2 s) t\<rparr>)"
proof -
  from assms(2) have "L2 s \<noteq> []"
    using findNextL2_Nil [of "preprocessThreads ops s"]
    by (auto simp: preprocessThreads_frame)
  then show ?thesis
    using assms by (simp add: findNext_nonempty Let_def preprocessThreads_frame)
qed

lemma findNext_from_L3:
  assumes "findNextL1 (preprocessThreads ops s) = None"
    and "findNextL2 (preprocessThreads ops s) = None"
    and "L3 s = t # ts"
  shows "findNext ops s = (Some t, (preprocessThreads ops s)\<lparr>L3 := ts\<rparr>)"
  using assms
  by (simp add: findNext_nonempty Let_def preprocessThreads_frame findNextL3_eq Remove_def)

lemma findNext_nothing:
  assumes "findNextL1 (preprocessThreads ops s) = None"
    and "findNextL2 (preprocessThreads ops s) = None"
    and "L3 s = []"
  shows "fst (findNext ops s) = None \<and> L1 (snd (findNext ops s)) = L1 s \<and>
         L2 (snd (findNext ops s)) = L2 s \<and> L3 (snd (findNext ops s)) = []"
  using assms
  by (simp add: findNext_def Let_def preprocessThreads_frame findNextL3_eq)

text \<open>
  When some entry of \<^verbatim>\<open>L[1]\<close> has an estimate below \<^verbatim>\<open>0x7fffffff\<close>,
  \<^verbatim>\<open>findNext\<close> returns the first entry of least estimate and takes that entry, and
  nothing else, out of \<^verbatim>\<open>L[1]\<close>. The estimates are those after
  \<^verbatim>\<open>preprocessThreads\<close>, which differ from the ones before only for the current thread.
\<close>

lemma findNext_band1_least:
  assumes "\<exists>u\<in>set (L1 s). getExecutionTime (preprocessThreads ops s) u < 0x7fffffff"
  shows "\<exists>pre t post. L1 s = pre @ t # post \<and> fst (findNext ops s) = Some t \<and>
     (\<forall>u\<in>set pre. getExecutionTime (preprocessThreads ops s) t
                      < getExecutionTime (preprocessThreads ops s) u) \<and>
     (\<forall>u\<in>set post. getExecutionTime (preprocessThreads ops s) t
                      \<le> getExecutionTime (preprocessThreads ops s) u) \<and>
     L1 (snd (findNext ops s)) = pre @ post \<and>
     L2 (snd (findNext ops s)) = L2 s \<and> L3 (snd (findNext ops s)) = L3 s"
proof -
  let ?s1 = "preprocessThreads ops s"
  from assms have "findNextL1 ?s1 \<noteq> None"
    by (simp add: findNextL1_None_iff preprocessThreads_frame not_le)
  then obtain t where t: "findNextL1 ?s1 = Some t" by blast
  from findNextL1_Some [OF t] obtain pre post where
    h: "L1 s = pre @ t # post"
       "\<forall>u\<in>set pre. getExecutionTime ?s1 t < getExecutionTime ?s1 u"
       "\<forall>u\<in>set post. getExecutionTime ?s1 t \<le> getExecutionTime ?s1 u"
       "Remove (L1 s) t = pre @ post"
    by (auto simp: preprocessThreads_frame)
  from findNext_from_L1 [OF t] h(4) have
    "fst (findNext ops s) = Some t" "L1 (snd (findNext ops s)) = pre @ post"
    "L2 (snd (findNext ops s)) = L2 s" "L3 (snd (findNext ops s)) = L3 s"
    by (simp_all add: preprocessThreads_frame)
  with h show ?thesis by blast
qed

text \<open>
  \<^verbatim>\<open>findNext\<close> returns \<^verbatim>\<open>NULL\<close> exactly when no queue yields a candidate:
  every entry of \<^verbatim>\<open>L[1]\<close> has the estimate \<^verbatim>\<open>0x7fffffff\<close> or more, every
  entry of \<^verbatim>\<open>L[2]\<close> has a negative priority, and \<^verbatim>\<open>L[3]\<close> is empty.
\<close>

lemma findNext_None_iff:
  "fst (findNext ops s) = None \<longleftrightarrow>
     (\<forall>u\<in>set (L1 s). 0x7fffffff \<le> getExecutionTime (preprocessThreads ops s) u) \<and>
     (\<forall>u\<in>set (L2 s). getPriority (preprocessThreads ops s) u \<le> - 1) \<and>
     L3 s = []"
proof (cases "L1 s = [] \<and> L2 s = [] \<and> L3 s = []")
  case True
  then show ?thesis by (simp add: findNext_empty)
next
  case False
  then show ?thesis
    using findNextL1_None_iff [of "preprocessThreads ops s"]
      findNextL2_None_iff [of "preprocessThreads ops s"]
    by (auto simp add: findNext_nonempty Let_def preprocessThreads_frame findNextL3_eq
        split: option.splits list.splits)
qed

lemmas ex_simps =
  ex_ready_def ex_idle_def Scheduler_def ex_threads_def ex_thread_def ex_ops_def

lemmas sel_simps =
  findNextL1_def findNextL2_def findNextL3_def getExecutionTime_def getPriority_def
  preprocessThreads_frame preprocessThreads_threads setTimeUsed_def Remove_def

text \<open>
  What the scans decide. With interrupts off, when \<^verbatim>\<open>findNextL1\<close> yields a
  candidate, that is the result and \<^verbatim>\<open>L[2]\<close> and \<^verbatim>\<open>L[3]\<close> are left alone. When
  \<^verbatim>\<open>findNextL1\<close> yields none and \<^verbatim>\<open>findNextL2\<close> yields a candidate, the result is
  the first entry of greatest priority of \<^verbatim>\<open>L[2]\<close>, and that entry is removed. When
  both yield none, the result is the front of \<^verbatim>\<open>L[3]\<close>, which is removed (and
  \<^verbatim>\<open>NULL\<close> when \<^verbatim>\<open>L[3]\<close> is empty). A queue yields no candidate when it is empty,
  and also when all its entries sit at the scan's starting value (an estimate of
  \<^verbatim>\<open>0x7fffffff\<close> or more in \<^verbatim>\<open>L[1]\<close>, a negative priority in \<^verbatim>\<open>L[2]\<close>).
\<close>

lemma FindNextToRun_scan_order:
  assumes "level s = IntOff"
  shows "\<exists>r s'. FindNextToRun ops s = Inr (r, s') \<and>
    (\<forall>t. findNextL1 (preprocessThreads ops s) = Some t \<longrightarrow>
       r = Some t \<and> t \<in> set (L1 s) \<and> L1 s' = Remove (L1 s) t \<and>
       L2 s' = L2 s \<and> L3 s' = L3 s) \<and>
    (\<forall>t. findNextL1 (preprocessThreads ops s) = None \<and>
         findNextL2 (preprocessThreads ops s) = Some t \<longrightarrow>
       r = Some t \<and>
       (\<exists>pre post. L2 s = pre @ t # post \<and>
          (\<forall>u\<in>set pre. getPriority (preprocessThreads ops s) u
                           < getPriority (preprocessThreads ops s) t) \<and>
          (\<forall>u\<in>set post. getPriority (preprocessThreads ops s) u
                           \<le> getPriority (preprocessThreads ops s) t) \<and>
          L2 s' = pre @ post) \<and>
       L1 s' = L1 s \<and> L3 s' = L3 s) \<and>
    (findNextL1 (preprocessThreads ops s) = None \<and>
     findNextL2 (preprocessThreads ops s) = None \<longrightarrow>
       (case L3 s of [] \<Rightarrow> r = None \<and> L3 s' = []
        | x # xs \<Rightarrow> r = Some x \<and> L3 s' = xs) \<and>
       L1 s' = L1 s \<and> L2 s' = L2 s) \<and>
    (findNextL1 (preprocessThreads ops s) = None \<longleftrightarrow>
       (\<forall>u\<in>set (L1 s). 0x7fffffff \<le> getExecutionTime (preprocessThreads ops s) u)) \<and>
    (findNextL2 (preprocessThreads ops s) = None \<longleftrightarrow>
       (\<forall>u\<in>set (L2 s). getPriority (preprocessThreads ops s) u \<le> - 1))"
proof -
  let ?p = "preprocessThreads ops s"
  let ?r = "fst (findNext ops s)"
  let ?s' = "snd (findNext ops s)"
  have run: "FindNextToRun ops s = Inr (?r, ?s')"
    using assms by (simp add: FindNextToRun_IntOff)
  have a: "?r = Some t \<and> t \<in> set (L1 s) \<and> L1 ?s' = Remove (L1 s) t \<and>
       L2 ?s' = L2 s \<and> L3 ?s' = L3 s"
    if t: "findNextL1 ?p = Some t" for t
  proof -
    from findNextL1_Some [OF t] have "t \<in> set (L1 s)"
      by (auto simp: preprocessThreads_frame)
    then show ?thesis
      using findNext_from_L1 [OF t] by (simp add: preprocessThreads_frame)
  qed
  have b: "?r = Some t \<and>
       (\<exists>pre post. L2 s = pre @ t # post \<and>
          (\<forall>u\<in>set pre. getPriority ?p u < getPriority ?p t) \<and>
          (\<forall>u\<in>set post. getPriority ?p u \<le> getPriority ?p t) \<and>
          L2 ?s' = pre @ post) \<and>
       L1 ?s' = L1 s \<and> L3 ?s' = L3 s"
    if n: "findNextL1 ?p = None" and t: "findNextL2 ?p = Some t" for t
  proof -
    from findNextL2_Some [OF t] obtain pre post where
      h: "L2 s = pre @ t # post"
         "\<forall>u\<in>set pre. getPriority ?p u < getPriority ?p t"
         "\<forall>u\<in>set post. getPriority ?p u \<le> getPriority ?p t"
         "Remove (L2 s) t = pre @ post"
      by (auto simp: preprocessThreads_frame)
    from findNext_from_L2 [OF n t] h(4) have
      "?r = Some t" "L2 ?s' = pre @ post" "L1 ?s' = L1 s" "L3 ?s' = L3 s"
      by (simp_all add: preprocessThreads_frame)
    with h show ?thesis by blast
  qed
  have c: "(case L3 s of [] \<Rightarrow> ?r = None \<and> L3 ?s' = []
        | x # xs \<Rightarrow> ?r = Some x \<and> L3 ?s' = xs) \<and>
       L1 ?s' = L1 s \<and> L2 ?s' = L2 s"
    if n1: "findNextL1 ?p = None" and n2: "findNextL2 ?p = None"
  proof (cases "L3 s")
    case Nil
    with findNext_nothing [OF n1 n2 Nil] show ?thesis by simp
  next
    case (Cons x xs)
    with findNext_from_L3 [OF n1 n2 Cons] show ?thesis
      by (simp add: preprocessThreads_frame)
  qed
  have d: "findNextL1 ?p = None \<longleftrightarrow>
       (\<forall>u\<in>set (L1 s). 0x7fffffff \<le> getExecutionTime ?p u)"
    using findNextL1_None_iff [of ?p] by (simp add: preprocessThreads_frame)
  have e: "findNextL2 ?p = None \<longleftrightarrow> (\<forall>u\<in>set (L2 s). getPriority ?p u \<le> - 1)"
    using findNextL2_None_iff [of ?p] by (simp add: preprocessThreads_frame)
  show ?thesis
    apply (rule exI [of _ ?r])
    apply (rule exI [of _ ?s'])
    using run a b c d e by blast
qed

lemma FindNextToRun_scan_order_example:
  "level ex_ready = IntOff \<and>
   findNextL1 (preprocessThreads ex_ops ex_ready) = Some 1 \<and>
   (\<exists>s'. FindNextToRun ex_ops ex_ready = Inr (Some 1, s') \<and>
      L1 s' = [6] \<and> L2 s' = [2, 3] \<and> L3 s' = [4]) \<and>
   level ex_band2 = IntOff \<and>
   findNextL1 (preprocessThreads ex_ops ex_band2) = None \<and>
   findNextL2 (preprocessThreads ex_ops ex_band2) = Some 2 \<and>
   (\<exists>s'. FindNextToRun ex_ops ex_band2 = Inr (Some 2, s') \<and>
      L1 s' = [] \<and> L2 s' = [3] \<and> L3 s' = [4]) \<and>
   level ex_band3 = IntOff \<and>
   findNextL1 (preprocessThreads ex_ops ex_band3) = None \<and>
   findNextL2 (preprocessThreads ex_ops ex_band3) = None \<and>
   (\<exists>s'. FindNextToRun ex_ops ex_band3 = Inr (Some 4, s') \<and>
      L1 s' = [] \<and> L2 s' = [] \<and> L3 s' = [7])"
proof -
  have l1: "level ex_ready = IntOff" by (simp add: ex_simps ex_band2_def ex_band3_def)
  have a1: "findNextL1 (preprocessThreads ex_ops ex_ready) = Some 1"
    by (simp add: sel_simps ex_simps ex_band2_def ex_band3_def)
  have q1: "L1 ex_ready = [1, 6]" "L2 ex_ready = [2, 3]" "L3 ex_ready = [4]"
    by (simp_all add: ex_simps ex_band2_def ex_band3_def)
  from FindNextToRun_scan_order [OF l1, of ex_ops] a1
  have r1: "\<exists>s'. FindNextToRun ex_ops ex_ready = Inr (Some 1, s') \<and>
      L1 s' = [6] \<and> L2 s' = [2, 3] \<and> L3 s' = [4]"
    by (simp add: q1 Remove_def) blast
  have l2: "level ex_band2 = IntOff" by (simp add: ex_simps ex_band2_def ex_band3_def)
  have a2: "findNextL1 (preprocessThreads ex_ops ex_band2) = None"
    by (simp add: sel_simps ex_simps ex_band2_def ex_band3_def)
  have b2: "findNextL2 (preprocessThreads ex_ops ex_band2) = Some 2"
    by (simp add: sel_simps ex_simps ex_band2_def ex_band3_def)
  have q2: "L1 ex_band2 = []" "L2 ex_band2 = [2, 3]" "L3 ex_band2 = [4]"
    by (simp_all add: ex_simps ex_band2_def ex_band3_def)
  from FindNextToRun_scan_order [OF l2, of ex_ops] obtain r s' where
    f2: "FindNextToRun ex_ops ex_band2 = Inr (r, s')" and
    g2: "\<forall>t. findNextL1 (preprocessThreads ex_ops ex_band2) = None \<and>
         findNextL2 (preprocessThreads ex_ops ex_band2) = Some t \<longrightarrow>
       r = Some t \<and>
       (\<exists>pre post. L2 ex_band2 = pre @ t # post \<and>
          (\<forall>u\<in>set pre. getPriority (preprocessThreads ex_ops ex_band2) u
                           < getPriority (preprocessThreads ex_ops ex_band2) t) \<and>
          (\<forall>u\<in>set post. getPriority (preprocessThreads ex_ops ex_band2) u
                           \<le> getPriority (preprocessThreads ex_ops ex_band2) t) \<and>
          L2 s' = pre @ post) \<and>
       L1 s' = L1 ex_band2 \<and> L3 s' = L3 ex_band2"
    by blast
  from g2 a2 b2 obtain pre post where
    h2: "r = Some 2" "L2 ex_band2 = pre @ 2 # post"
        "\<forall>u\<in>set pre. getPriority (preprocessThreads ex_ops ex_band2) u
                           < getPriority (preprocessThreads ex_ops ex_band2) 2"
        "L2 s' = pre @ post" "L1 s' = L1 ex_band2" "L3 s' = L3 ex_band2"
    by blast
  from h2(2) have "pre = [] \<or> pre = [2]"
    by (cases pre) (auto simp: q2 Cons_eq_append_conv)
  with h2(3) have "pre = []" by auto
  with h2(2) have "post = [3]" by (simp add: q2)
  with \<open>pre = []\<close> h2 f2 have
    r2: "\<exists>s'. FindNextToRun ex_ops ex_band2 = Inr (Some 2, s') \<and>
      L1 s' = [] \<and> L2 s' = [3] \<and> L3 s' = [4]"
    by (simp add: q2)
  have l3: "level ex_band3 = IntOff" by (simp add: ex_simps ex_band2_def ex_band3_def)
  have a3: "findNextL1 (preprocessThreads ex_ops ex_band3) = None"
    by (simp add: sel_simps ex_simps ex_band2_def ex_band3_def)
  have b3: "findNextL2 (preprocessThreads ex_ops ex_band3) = None"
    by (simp add: sel_simps ex_simps ex_band2_def ex_band3_def)
  have q3: "L1 ex_band3 = []" "L2 ex_band3 = []" "L3 ex_band3 = [4, 7]"
    by (simp_all add: ex_simps ex_band2_def ex_band3_def)
  from FindNextToRun_scan_order [OF l3, of ex_ops] a3 b3
  have r3: "\<exists>s'. FindNextToRun ex_ops ex_band3 = Inr (Some 4, s') \<and>
      L1 s' = [] \<and> L2 s' = [] \<and> L3 s' = [7]"
    by (simp add: q3) blast
  show ?thesis using l1 a1 r1 l2 a2 b2 r2 l3 a3 b3 r3 by blast
qed

text \<open>
  Claim C1, at a failing input. \<^verbatim>\<open>L[1]\<close> holds the one thread 5, whose estimate is
  \<^verbatim>\<open>0x7fffffff\<close>, and \<^verbatim>\<open>L[2]\<close> holds thread 2. The scan of \<^verbatim>\<open>L[1]\<close> starts
  \<^verbatim>\<open>min_burst\<close> at \<^verbatim>\<open>0x7fffffff\<close> and compares with \<^verbatim>\<open><\<close>, so it yields
  \<^verbatim>\<open>NULL\<close>: \<^verbatim>\<open>FindNextToRun\<close> returns thread 2 from \<^verbatim>\<open>L[2]\<close> and leaves thread 5
  in \<^verbatim>\<open>L[1]\<close>, where the claim has the entry of \<^verbatim>\<open>L[1]\<close> with the least estimate
  selected and removed.
\<close>

theorem FindNextToRun_band1_sentinel_skipped:
  "L1 ex_sentinel2 = [5] \<and>
   getExecutionTime ex_sentinel2 5 = 0x7fffffff \<and>
   FindNextToRun ex_ops ex_sentinel2 = Inr (findNext ex_ops ex_sentinel2) \<and>
   fst (findNext ex_ops ex_sentinel2) = Some 2 \<and>
   L1 (snd (findNext ex_ops ex_sentinel2)) = [5] \<and>
   L2 (snd (findNext ex_ops ex_sentinel2)) = []"
  by (simp add: FindNextToRun_def findNext_def IsEmpty_def Let_def sel_simps ex_simps
      ex_sentinel2_def)

text \<open>
  Claim C6, at a failing input. \<^verbatim>\<open>L[1]\<close> holds the one thread 5, whose estimate is
  \<^verbatim>\<open>0x7fffffff\<close>, and the other queues are empty. No scan yields a candidate and
  \<^verbatim>\<open>FindNextToRun\<close> returns \<^verbatim>\<open>NULL\<close> with thread 5 still ready in \<^verbatim>\<open>L[1]\<close>,
  where the claim (and the comment above \<^verbatim>\<open>FindNextToRun\<close>) has \<^verbatim>\<open>NULL\<close> returned
  only when there are no ready threads.
\<close>

theorem FindNextToRun_NULL_with_ready_thread:
  "L1 ex_sentinel = [5] \<and>
   getExecutionTime ex_sentinel 5 = 0x7fffffff \<and>
   FindNextToRun ex_ops ex_sentinel = Inr (findNext ex_ops ex_sentinel) \<and>
   fst (findNext ex_ops ex_sentinel) = None \<and>
   L1 (snd (findNext ex_ops ex_sentinel)) = [5]"
  by (simp add: FindNextToRun_def findNext_def IsEmpty_def Let_def sel_simps ex_simps
      ex_sentinel_def)

text \<open>
  Claim C5 as stated fails. With all three queues empty, \<^verbatim>\<open>findNext\<close> returns
  before \<^verbatim>\<open>preprocessThreads\<close>: the current thread keeps its used time of 7 and its
  estimate. With ready threads, the pass over the ready threads is commented out in
  \<^verbatim>\<open>preprocessThreads\<close>: thread 6, ready in \<^verbatim>\<open>L[1]\<close> before and after the call, is
  not changed.
\<close>

theorem FindNextToRun_no_bookkeeping:
  "FindNextToRun ex_ops ex_idle = Inr (findNext ex_ops ex_idle) \<and>
   timeUsed (threads (snd (findNext ex_ops ex_idle)) (currentThread ex_idle)) \<noteq> 0 \<and>
   executionTime (threads (snd (findNext ex_ops ex_idle)) (currentThread ex_idle)) \<noteq>
     executionTime (calNewExecuteTime ex_ops (threads ex_idle (currentThread ex_idle))) \<and>
   6 \<in> set (L1 ex_ready) \<and> 6 \<in> set (L1 (snd (findNext ex_ops ex_ready))) \<and>
   threads (snd (findNext ex_ops ex_ready)) 6 = threads ex_ready 6"
  by (simp add: FindNextToRun_def findNext_def IsEmpty_def Let_def sel_simps ex_simps)

text \<open>
  Claim C5, amended. With interrupts off, a call of \<^verbatim>\<open>FindNextToRun\<close> that finds all
  three queues empty returns \<^verbatim>\<open>NULL\<close> and changes nothing. A call that finds a queue
  non-empty first closes out the current thread (its estimate is recomputed, its last tick
  saved and its used time set to zero) and changes no other thread, and the scans then
  select on the state so reached.
\<close>

theorem FindNextToRun_closes_out_current:
  assumes "level s = IntOff"
  shows "(L1 s = [] \<and> L2 s = [] \<and> L3 s = [] \<longrightarrow> FindNextToRun ops s = Inr (None, s)) \<and>
    (\<not> (L1 s = [] \<and> L2 s = [] \<and> L3 s = []) \<longrightarrow>
       (\<exists>r s'. FindNextToRun ops s = Inr (r, s') \<and>
          threads s' =
            (threads s)(currentThread s :=
               setTimeUsed 0 (saveLastTick ops
                 (calNewExecuteTime ops (threads s (currentThread s))))) \<and>
          timeUsed (threads s' (currentThread s)) = 0 \<and>
          currentThread s' = currentThread s \<and>
          r = (case findNextL1 (preprocessThreads ops s) of
                 Some t \<Rightarrow> Some t
               | None \<Rightarrow>
                  (case findNextL2 (preprocessThreads ops s) of
                     Some t \<Rightarrow> Some t
                   | None \<Rightarrow> findNextL3 (preprocessThreads ops s)))))"
proof (intro conjI impI)
  assume "L1 s = [] \<and> L2 s = [] \<and> L3 s = []"
  then show "FindNextToRun ops s = Inr (None, s)"
    using assms by (simp add: FindNextToRun_IntOff findNext_empty)
next
  let ?p = "preprocessThreads ops s"
  assume ne: "\<not> (L1 s = [] \<and> L2 s = [] \<and> L3 s = [])"
  have run: "FindNextToRun ops s = Inr (fst (findNext ops s), snd (findNext ops s))"
    using assms by (simp add: FindNextToRun_IntOff)
  have th: "threads (snd (findNext ops s)) = threads ?p"
    by (simp add: findNext_nonempty [OF ne] Let_def split: option.splits)
  have cu: "currentThread (snd (findNext ops s)) = currentThread s"
    by (simp add: findNext_nonempty [OF ne] Let_def preprocessThreads_frame
        split: option.splits)
  have r: "fst (findNext ops s) =
      (case findNextL1 ?p of Some t \<Rightarrow> Some t
       | None \<Rightarrow> (case findNextL2 ?p of Some t \<Rightarrow> Some t | None \<Rightarrow> findNextL3 ?p))"
    by (simp add: findNext_nonempty [OF ne] Let_def split: option.splits)
  have z: "timeUsed (threads (snd (findNext ops s)) (currentThread s)) = 0"
    by (simp add: th preprocessThreads_threads setTimeUsed_def)
  show "\<exists>r s'. FindNextToRun ops s = Inr (r, s') \<and>
          threads s' =
            (threads s)(currentThread s :=
               setTimeUsed 0 (saveLastTick ops
                 (calNewExecuteTime ops (threads s (currentThread s))))) \<and>
          timeUsed (threads s' (currentThread s)) = 0 \<and>
          currentThread s' = currentThread s \<and>
          r = (case findNextL1 ?p of
                 Some t \<Rightarrow> Some t
               | None \<Rightarrow>
                  (case findNextL2 ?p of
                     Some t \<Rightarrow> Some t
                   | None \<Rightarrow> findNextL3 ?p))"
    using run th cu r z by (metis preprocessThreads_threads)
qed

theorem FindNextToRun_closes_out_current_witness:
  "level ex_idle = IntOff \<and> L1 ex_idle = [] \<and> L2 ex_idle = [] \<and> L3 ex_idle = [] \<and>
   FindNextToRun ex_ops ex_idle = Inr (None, ex_idle) \<and>
   level ex_ready = IntOff \<and> \<not> (L1 ex_ready = [] \<and> L2 ex_ready = [] \<and> L3 ex_ready = []) \<and>
   (\<exists>s'. FindNextToRun ex_ops ex_ready = Inr (Some 1, s') \<and>
      timeUsed (threads s' 0) = 0 \<and> executionTime (threads s' 0) = 7 \<and>
      threads s' 6 = threads ex_ready 6)"
proof -
  have l0: "level ex_idle = IntOff" and e0: "L1 ex_idle = [] \<and> L2 ex_idle = [] \<and> L3 ex_idle = []"
    by (simp_all add: ex_simps)
  have l1: "level ex_ready = IntOff"
    and n1: "\<not> (L1 ex_ready = [] \<and> L2 ex_ready = [] \<and> L3 ex_ready = [])"
    by (simp_all add: ex_simps)
  have r0: "FindNextToRun ex_ops ex_idle = Inr (None, ex_idle)"
    using FindNextToRun_closes_out_current [OF l0, of ex_ops] e0 by blast
  from FindNextToRun_closes_out_current [OF l1, of ex_ops] n1 obtain r s' where
    f: "FindNextToRun ex_ops ex_ready = Inr (r, s')" and
    t: "threads s' =
            (threads ex_ready)(currentThread ex_ready :=
               setTimeUsed 0 (saveLastTick ex_ops
                 (calNewExecuteTime ex_ops (threads ex_ready (currentThread ex_ready)))))" and
    r: "r = (case findNextL1 (preprocessThreads ex_ops ex_ready) of
                 Some t \<Rightarrow> Some t
               | None \<Rightarrow>
                  (case findNextL2 (preprocessThreads ex_ops ex_ready) of
                     Some t \<Rightarrow> Some t
                   | None \<Rightarrow> findNextL3 (preprocessThreads ex_ops ex_ready)))"
    by blast
  have "r = Some 1" using r by (simp add: sel_simps ex_simps)
  moreover have "timeUsed (threads s' 0) = 0" "executionTime (threads s' 0) = 7"
    "threads s' 6 = threads ex_ready 6"
    using t by (simp_all add: setTimeUsed_def ex_simps)
  ultimately show ?thesis using l0 e0 r0 l1 n1 f by blast
qed

text \<open>
  Claim C2, at failing inputs. In the first state \<^verbatim>\<open>L[1]\<close> holds thread 5, whose
  estimate is \<^verbatim>\<open>0x7fffffff\<close>, \<^verbatim>\<open>L[2]\<close> is empty and \<^verbatim>\<open>L[3]\<close> holds thread 4:
  \<^verbatim>\<open>FindNextToRun\<close> returns and removes the front of \<^verbatim>\<open>L[3]\<close> although
  \<^verbatim>\<open>L[1]\<close> is not empty. In the second state \<^verbatim>\<open>L[1]\<close> is empty, \<^verbatim>\<open>L[2]\<close>
  holds thread 9, whose priority is \<open>- 5\<close>, and \<^verbatim>\<open>L[3]\<close> holds thread 4: the scan of
  \<^verbatim>\<open>L[2]\<close> starts \<^verbatim>\<open>max_priority\<close> at \<open>- 1\<close> and compares with \<^verbatim>\<open>>\<close>, so
  \<^verbatim>\<open>FindNextToRun\<close> again returns the front of \<^verbatim>\<open>L[3]\<close> and leaves thread 9 in
  \<^verbatim>\<open>L[2]\<close>. The claim has \<^verbatim>\<open>L[3]\<close> served only when the two higher queues hold
  no thread.
\<close>

theorem FindNextToRun_lower_band_served:
  "L1 ex_sentinel3 = [5] \<and> getExecutionTime ex_sentinel3 5 = 0x7fffffff \<and>
   FindNextToRun ex_ops ex_sentinel3 = Inr (findNext ex_ops ex_sentinel3) \<and>
   fst (findNext ex_ops ex_sentinel3) = Some 4 \<and>
   L1 (snd (findNext ex_ops ex_sentinel3)) = [5] \<and>
   L3 (snd (findNext ex_ops ex_sentinel3)) = [] \<and>
   L1 ex_negative = [] \<and> L2 ex_negative = [9] \<and> getPriority ex_negative 9 = - 5 \<and>
   FindNextToRun ex_ops ex_negative = Inr (findNext ex_ops ex_negative) \<and>
   fst (findNext ex_ops ex_negative) = Some 4 \<and>
   L2 (snd (findNext ex_ops ex_negative)) = [9] \<and>
   L3 (snd (findNext ex_ops ex_negative)) = []"
  by (simp add: FindNextToRun_def findNext_def IsEmpty_def Let_def sel_simps ex_simps
      ex_sentinel3_def ex_negative_def)

text \<open>
  With the estimates of \<^verbatim>\<open>L[1]\<close> below \<^verbatim>\<open>0x7fffffff\<close> and the priorities of
  \<^verbatim>\<open>L[2]\<close> not negative, the queues are served in the order 1, 2, 3 by their
  contents: \<^verbatim>\<open>L[2]\<close> gives its first entry of greatest priority when \<^verbatim>\<open>L[1]\<close>
  is empty, and \<^verbatim>\<open>L[3]\<close> gives its front when \<^verbatim>\<open>L[1]\<close> and \<^verbatim>\<open>L[2]\<close> are empty.
\<close>

lemma findNext_band2_greatest:
  assumes "L1 s = []"
    and "\<exists>u\<in>set (L2 s). 0 \<le> getPriority (preprocessThreads ops s) u"
  shows "\<exists>pre t post. L2 s = pre @ t # post \<and> fst (findNext ops s) = Some t \<and>
     (\<forall>u\<in>set pre. getPriority (preprocessThreads ops s) u
                      < getPriority (preprocessThreads ops s) t) \<and>
     (\<forall>u\<in>set post. getPriority (preprocessThreads ops s) u
                      \<le> getPriority (preprocessThreads ops s) t) \<and>
     L1 (snd (findNext ops s)) = [] \<and>
     L2 (snd (findNext ops s)) = pre @ post \<and> L3 (snd (findNext ops s)) = L3 s"
proof -
  let ?p = "preprocessThreads ops s"
  have n: "findNextL1 ?p = None"
    using assms(1) by (simp add: findNextL1_Nil preprocessThreads_frame)
  from assms(2) obtain u where "u \<in> set (L2 s)" "\<not> getPriority ?p u \<le> - 1"
    by force
  then have "findNextL2 ?p \<noteq> None"
    unfolding findNextL2_None_iff by (simp add: preprocessThreads_frame) blast
  then obtain t where t: "findNextL2 ?p = Some t" by blast
  from findNextL2_Some [OF t] obtain pre post where
    h: "L2 s = pre @ t # post"
       "\<forall>u\<in>set pre. getPriority ?p u < getPriority ?p t"
       "\<forall>u\<in>set post. getPriority ?p u \<le> getPriority ?p t"
       "Remove (L2 s) t = pre @ post"
    by (auto simp: preprocessThreads_frame)
  from findNext_from_L2 [OF n t] h(4) assms(1) have
    "fst (findNext ops s) = Some t" "L2 (snd (findNext ops s)) = pre @ post"
    "L1 (snd (findNext ops s)) = []" "L3 (snd (findNext ops s)) = L3 s"
    by (simp_all add: preprocessThreads_frame)
  with h show ?thesis by blast
qed

lemma findNext_band3_front:
  assumes "L1 s = []" and "L2 s = []" and "L3 s = t # ts"
  shows "fst (findNext ops s) = Some t \<and> L1 (snd (findNext ops s)) = [] \<and>
         L2 (snd (findNext ops s)) = [] \<and> L3 (snd (findNext ops s)) = ts"
proof -
  let ?p = "preprocessThreads ops s"
  have n1: "findNextL1 ?p = None"
    using assms(1) by (simp add: findNextL1_Nil preprocessThreads_frame)
  have n2: "findNextL2 ?p = None"
    using assms(2) by (simp add: findNextL2_Nil preprocessThreads_frame)
  from findNext_from_L3 [OF n1 n2 assms(3)] assms(1,2) show ?thesis
    by (simp add: preprocessThreads_frame)
qed

end
